theory Spec2Isabelle
  imports Main "HOL-Library.Word" "HOL-Library.AList" "HOL-Library.Multiset"
begin

section \<open>Strings and the host's string functions\<close>

text \<open>
  A JavaScript string is a sequence of 16-bit code units. \<open>str\<close> writes an ASCII
  literal as such a sequence.
\<close>

type_synonym code_unit = "16 word"
type_synonym jsstring = "code_unit list"

definition str :: "string \<Rightarrow> jsstring" where
  "str s = map of_char s"

text \<open>
  \<open>String.prototype.trim\<close> removes, at both ends, the code units of ECMAScript's
  WhiteSpace and LineTerminator productions (all of them lie in the basic plane).
\<close>

definition is_trim_space :: "code_unit \<Rightarrow> bool" where
  "is_trim_space c \<longleftrightarrow>
     c \<in> set [0x0009, 0x000A, 0x000B, 0x000C, 0x000D, 0x0020, 0x00A0, 0x1680,
              0x2028, 0x2029, 0x202F, 0x205F, 0x3000, 0xFEFF]
     \<or> (0x2000 \<le> c \<and> c \<le> 0x200A)"

definition trim :: "jsstring \<Rightarrow> jsstring" where
  "trim s = rev (dropWhile is_trim_space (rev (dropWhile is_trim_space s)))"

text \<open>
  \<open>String.prototype.toLowerCase\<close> and \<open>String.prototype.localeCompare\<close> (called with
  the locale \<open>ja\<close>) are functions of the host whose Unicode tables are not part of the
  repository; the model takes them as parameters.
\<close>

record builtins =
  toLowerCase :: "jsstring \<Rightarrow> jsstring"
  localeCompare :: "jsstring \<Rightarrow> jsstring \<Rightarrow> int"

section \<open>Arrays, sets, maps and objects of the host\<close>

text \<open>\<open>Array.prototype.slice(k)\<close>: a negative \<open>k\<close> counts from the end.\<close>

definition slice :: "int \<Rightarrow> 'a list \<Rightarrow> 'a list" where
  "slice k xs =
     (if k < 0 then drop (nat (max (int (length xs) + k) 0)) xs else drop (nat k) xs)"

text \<open>
  A \<open>Set\<close> keeps its elements in insertion order: a list without repetitions.
  \<open>add\<close> of an element that is present changes nothing.
\<close>

definition Set_add :: "'a \<Rightarrow> 'a list \<Rightarrow> 'a list" where
  "Set_add x xs = (if x \<in> set xs then xs else xs @ [x])"

text \<open>
  A \<open>Map\<close> keeps its entries in insertion order: an association list. \<open>Map.set\<close>
  is \<open>AList.update\<close> (replace in place, or append a new key), \<open>Map.has\<close> and
  \<open>Map.get\<close> are \<open>map_of\<close>.

  \<open>Array.prototype.sort(cmp)\<close> is stable; for a consistent comparator its result is
  the stable sorted permutation, which insertion from the right computes. An element
  goes before the first one that the comparator does not put strictly before it.
\<close>

fun insert_by :: "('a \<Rightarrow> 'a \<Rightarrow> int) \<Rightarrow> 'a \<Rightarrow> 'a list \<Rightarrow> 'a list" where
  "insert_by cmp x [] = [x]"
| "insert_by cmp x (y # ys) = (if cmp x y \<le> 0 then x # y # ys else y # insert_by cmp x ys)"

definition sort_by :: "('a \<Rightarrow> 'a \<Rightarrow> int) \<Rightarrow> 'a list \<Rightarrow> 'a list" where
  "sort_by cmp xs = foldr (insert_by cmp) xs []"

text \<open>
  \<open>nameCnt\<close> is a plain object \<open>{}\<close>, so it inherits from \<open>Object.prototype\<close>. Its
  own properties are an association list in creation order. The values the code can
  store are numbers and, for a name that \<open>Object.prototype\<close> defines, strings:
  reading such a name before it is an own property yields the inherited function (or,
  for \<open>__proto__\<close>, the prototype object), which is truthy, and adding \<open>1\<close> to it
  concatenates strings.
\<close>

datatype jsval = Number nat | Text | Builtin

definition object_prototype_keys :: "jsstring list" where
  "object_prototype_keys = map str
     [''constructor'', ''__defineGetter__'', ''__defineSetter__'', ''hasOwnProperty'',
      ''__lookupGetter__'', ''__lookupSetter__'', ''isPrototypeOf'',
      ''propertyIsEnumerable'', ''toString'', ''valueOf'', ''__proto__'',
      ''toLocaleString'']"

definition obj_get :: "(jsstring \<times> jsval) list \<Rightarrow> jsstring \<Rightarrow> jsval option" where
  "obj_get obj k =
     (case map_of obj k of
        Some v \<Rightarrow> Some v
      | None \<Rightarrow> if k \<in> set object_prototype_keys then Some Builtin else None)"

text \<open>
  Assignment to \<open>__proto__\<close> runs the inherited setter, which ignores a value that is
  not an object; every other assignment writes an own property.
\<close>

definition obj_set :: "(jsstring \<times> jsval) list \<Rightarrow> jsstring \<Rightarrow> jsval \<Rightarrow> (jsstring \<times> jsval) list" where
  "obj_set obj k v =
     (if map_of obj k = None \<and> k = str ''__proto__'' then obj else AList.update k v obj)"

text \<open>\<open>(v || 0) + 1\<close> for a property read \<open>v\<close>.\<close>

fun or0_plus1 :: "jsval option \<Rightarrow> jsval" where
  "or0_plus1 None = Number 1"
| "or0_plus1 (Some (Number n)) = Number (n + 1)"
| "or0_plus1 (Some Text) = Text"
| "or0_plus1 (Some Builtin) = Text"

text \<open>\<open>c > 1\<close>: a string that is not numeric converts to NaN, and NaN compares false.\<close>

fun gt1 :: "jsval \<Rightarrow> bool" where
  "gt1 (Number n) = (1 < n)"
| "gt1 Text = False"
| "gt1 Builtin = False"

text \<open>
  \<open>Object.entries\<close> lists the own properties whose keys are array indices (canonical
  decimal numerals below \<open>2^32 - 1\<close>, which is 4294967295) first, in ascending numeric order, and then
  the other keys in creation order.
\<close>

definition is_digit :: "code_unit \<Rightarrow> bool" where
  "is_digit c \<longleftrightarrow> 0x30 \<le> c \<and> c \<le> 0x39"

definition decimal :: "jsstring \<Rightarrow> int" where
  "decimal s = foldl (\<lambda>n c. 10 * n + (uint c - 0x30)) 0 s"

definition array_index :: "jsstring \<Rightarrow> int option" where
  "array_index s =
     (if s \<noteq> [] \<and> list_all is_digit s \<and> (length s = 1 \<or> hd s \<noteq> 0x30)
         \<and> decimal s < 4294967295
      then Some (decimal s) else None)"

definition index_key :: "jsstring \<times> 'v \<Rightarrow> int" where
  "index_key e = (case array_index (fst e) of Some i \<Rightarrow> i | None \<Rightarrow> 0)"

definition entries :: "(jsstring \<times> 'v) list \<Rightarrow> (jsstring \<times> 'v) list" where
  "entries obj =
     sort_key index_key (filter (\<lambda>e. array_index (fst e) \<noteq> None) obj)
     @ filter (\<lambda>e. array_index (fst e) = None) obj"

section \<open>The aggregation core\<close>

record cfg =
  pkIdx :: int
  nameIdx :: int
  statusIdx :: int
  condition :: jsstring
  headerRow :: int

text \<open>
  A file is its name and what reading and parsing it gives: \<open>result.data\<close> of the CSV
  parser (rows of string cells), or \<open>None\<close> when \<open>readText\<close> or the parser rejects.
\<close>

record source_file =
  name :: jsstring
  parsed :: "jsstring list list option"

datatype reason = duplicate_filename | parse_error

datatype error = TypeError

text \<open>
  The variables of \<open>aggregate\<close> that its loop over the files changes. The counters
  are JavaScript numbers that count rows, files and set elements one by one; such counts
  stay below \<open>2^53\<close>, where the numbers are exact, so they are natural numbers here.
\<close>

record run_state =
  master :: "(jsstring \<times> (jsstring \<times> nat)) list"
  grossTotal :: nat
  attendTotal :: nat
  attendUniq :: "jsstring list"
  ignoredNoKey :: nat
  ignoredNoName :: nat
  processed :: nat
  skipped :: "(jsstring \<times> reason) list"

text \<open>
  The rate is the number \<open>0\<close>, or the string \<open>(attendTotal / grossTotal).toFixed(6)\<close>:
  a division of doubles printed in decimal, which is kept as the pair of its operands.
\<close>

datatype js_rate = Quotient_toFixed6 nat nat | Zero

record summary =
  sum_grossTotal :: nat
  sum_attendTotal :: nat
  attendUnique :: nat
  rate :: js_rate
  sum_ignoredNoKey :: nat
  sum_ignoredNoName :: nat

record agg_result =
  processedCount :: nat
  res_skipped :: "(jsstring \<times> reason) list"
  masterRows :: "(jsstring \<times> jsstring \<times> nat) list"
  summary :: summary

text \<open>\<open>parseCSV\<close>: the parsed rows without their first \<open>headerRow\<close> rows.\<close>

definition parseCSV :: "source_file \<Rightarrow> int \<Rightarrow> jsstring list list option" where
  "parseCSV file h = map_option (slice h) (parsed file)"

text \<open>\<open>row[i] != null ? String(row[i]).trim() : ''\<close>; an index outside the row reads
  \<open>undefined\<close>.\<close>

definition cell :: "jsstring list \<Rightarrow> int \<Rightarrow> jsstring" where
  "cell row i = (if 0 \<le> i \<and> nat i < length row then trim (row ! nat i) else [])"

text \<open>Step 1 of \<open>aggregate\<close>: the duplicate file names.\<close>

definition count_name :: "(jsstring \<times> jsval) list \<Rightarrow> jsstring \<Rightarrow> (jsstring \<times> jsval) list" where
  "count_name nameCnt n = obj_set nameCnt n (or0_plus1 (obj_get nameCnt n))"

definition dupNames :: "source_file list \<Rightarrow> jsstring list" where
  "dupNames files =
     map fst (filter (\<lambda>(n, c). gt1 c) (entries (foldl count_name [] (map name files))))"

definition toProcess :: "source_file list \<Rightarrow> source_file list" where
  "toProcess files = filter (\<lambda>f. name f \<notin> set (dupNames files)) files"

definition skipped0 :: "source_file list \<Rightarrow> (jsstring \<times> reason) list" where
  "skipped0 files = map (\<lambda>n. (n, duplicate_filename)) (dupNames files)"

text \<open>
  The body of the loop over the rows of one file. It works on the run's state and on
  the two sets of the event, \<open>eventApplicants\<close> and \<open>eventAttendees\<close>.
\<close>

definition process_row ::
  "builtins \<Rightarrow> cfg \<Rightarrow> run_state \<times> jsstring list \<times> jsstring list \<Rightarrow> jsstring list
     \<Rightarrow> run_state \<times> jsstring list \<times> jsstring list" where
  "process_row env cfg acc row =
     (case acc of (s, eventApplicants, eventAttendees) \<Rightarrow>
        let pk = cell row (pkIdx cfg);
            name = cell row (nameIdx cfg);
            status = cell row (statusIdx cfg)
        in if pk = [] then (s\<lparr>ignoredNoKey := ignoredNoKey s + 1\<rparr>, eventApplicants, eventAttendees)
           else if name = [] then (s\<lparr>ignoredNoName := ignoredNoName s + 1\<rparr>, eventApplicants, eventAttendees)
           else
             (if map_of (master s) pk = None
              then s\<lparr>master := AList.update pk (name, 0) (master s)\<rparr> else s,
              Set_add pk eventApplicants,
              if toLowerCase env status = toLowerCase env (condition cfg)
              then Set_add pk eventAttendees else eventAttendees))"

text \<open>
  The loop over \<open>eventAttendees\<close>: \<open>master.get(pk).count++\<close> throws a TypeError when
  the key has no record.
\<close>

definition count_attendee :: "run_state \<Rightarrow> jsstring \<Rightarrow> error + run_state" where
  "count_attendee s pk =
     (case map_of (master s) pk of
        None \<Rightarrow> Inl TypeError
      | Some (nm, cnt) \<Rightarrow>
          Inr (s\<lparr>master := AList.update pk (nm, cnt + 1) (master s),
                 attendUniq := Set_add pk (attendUniq s)\<rparr>))"

fun count_attendees :: "run_state \<Rightarrow> jsstring list \<Rightarrow> error + run_state" where
  "count_attendees s [] = Inr s"
| "count_attendees s (pk # pks) =
     (case count_attendee s pk of Inl e \<Rightarrow> Inl e | Inr s' \<Rightarrow> count_attendees s' pks)"

text \<open>The body of the loop over the files, and the loop.\<close>

definition process_file :: "builtins \<Rightarrow> cfg \<Rightarrow> run_state \<Rightarrow> source_file \<Rightarrow> error + run_state" where
  "process_file env cfg s file =
     (case parseCSV file (headerRow cfg) of
        None \<Rightarrow> Inr (s\<lparr>skipped := skipped s @ [(name file, parse_error)]\<rparr>)
      | Some rows \<Rightarrow>
          (case foldl (process_row env cfg) (s, [], []) rows of
             (s1, eventApplicants, eventAttendees) \<Rightarrow>
               (case count_attendees
                       (s1\<lparr>grossTotal := grossTotal s1 + length eventApplicants,
                           attendTotal := attendTotal s1 + length eventAttendees\<rparr>)
                       eventAttendees of
                  Inl e \<Rightarrow> Inl e
                | Inr s2 \<Rightarrow> Inr (s2\<lparr>processed := processed s2 + 1\<rparr>))))"

fun process_files :: "builtins \<Rightarrow> cfg \<Rightarrow> run_state \<Rightarrow> source_file list \<Rightarrow> error + run_state" where
  "process_files env cfg s [] = Inr s"
| "process_files env cfg s (file # files) =
     (case process_file env cfg s file of
        Inl e \<Rightarrow> Inl e
      | Inr s' \<Rightarrow> process_files env cfg s' files)"

text \<open>Step 3: the comparator of the final sort, \<open>b[2] - a[2] || a[0].localeCompare(b[0])\<close>.\<close>

definition row_cmp :: "builtins \<Rightarrow> jsstring \<times> jsstring \<times> nat \<Rightarrow> jsstring \<times> jsstring \<times> nat \<Rightarrow> int" where
  "row_cmp env a b =
     (let d = int (snd (snd b)) - int (snd (snd a))
      in if d \<noteq> 0 then d else localeCompare env (fst a) (fst b))"

definition init_state :: "source_file list \<Rightarrow> run_state" where
  "init_state files =
     \<lparr>master = [], grossTotal = 0, attendTotal = 0, attendUniq = [], ignoredNoKey = 0,
      ignoredNoName = 0, processed = 0, skipped = skipped0 files\<rparr>"

definition result_of :: "builtins \<Rightarrow> run_state \<Rightarrow> agg_result" where
  "result_of env s =
     \<lparr>processedCount = processed s,
      res_skipped = skipped s,
      masterRows = sort_by (row_cmp env) (map (\<lambda>(pk, nm, cnt). (pk, nm, cnt)) (master s)),
      summary =
        \<lparr>sum_grossTotal = grossTotal s,
         sum_attendTotal = attendTotal s,
         attendUnique = length (attendUniq s),
         rate = (if grossTotal s > 0 then Quotient_toFixed6 (attendTotal s) (grossTotal s) else Zero),
         sum_ignoredNoKey = ignoredNoKey s,
         sum_ignoredNoName = ignoredNoName s\<rparr>\<rparr>"

definition aggregate :: "builtins \<Rightarrow> source_file list \<Rightarrow> cfg \<Rightarrow> error + agg_result" where
  "aggregate env files cfg =
     (case process_files env cfg (init_state files) (toProcess files) of
        Inl e \<Rightarrow> Inl e
      | Inr s \<Rightarrow> Inr (result_of env s))"

text \<open>
  The configuration that the run button's handler passes to \<open>aggregate\<close>: the
  condition is the trimmed value of its input field.
\<close>

definition run_cfg :: "int \<Rightarrow> int \<Rightarrow> int \<Rightarrow> jsstring \<Rightarrow> int \<Rightarrow> cfg" where
  "run_cfg pk_i name_i status_i condInput h =
     \<lparr>pkIdx = pk_i, nameIdx = name_i, statusIdx = status_i, condition = trim condInput,
      headerRow = h\<rparr>"

text \<open>Host functions for concrete runs: lower-casing of the ASCII letters and the
  comparison of code units.\<close>

definition ascii_lower :: "jsstring \<Rightarrow> jsstring" where
  "ascii_lower s = map (\<lambda>c. if 0x41 \<le> c \<and> c \<le> 0x5A then c + 0x20 else c) s"

fun unit_compare :: "jsstring \<Rightarrow> jsstring \<Rightarrow> int" where
  "unit_compare [] [] = 0"
| "unit_compare [] (y # ys) = - 1"
| "unit_compare (x # xs) [] = 1"
| "unit_compare (x # xs) (y # ys) =
     (if x < y then - 1 else if y < x then 1 else unit_compare xs ys)"

definition ascii_env :: builtins where
  "ascii_env = \<lparr>toLowerCase = ascii_lower, localeCompare = unit_compare\<rparr>"

section \<open>Notions of the specification\<close>

text \<open>
  The definitions of this section are not translations of code. They say, in the words
  of the specification, what the statements below are about; the lemmas relate the code
  to them.

  A row is valid when its key and its name are present; it attends when it is valid and
  its status matches the condition.
\<close>

definition valid :: "cfg \<Rightarrow> jsstring list \<Rightarrow> bool" where
  "valid cfg row \<longleftrightarrow> cell row (pkIdx cfg) \<noteq> [] \<and> cell row (nameIdx cfg) \<noteq> []"

definition attends :: "builtins \<Rightarrow> cfg \<Rightarrow> jsstring list \<Rightarrow> bool" where
  "attends env cfg row \<longleftrightarrow>
     valid cfg row \<and> toLowerCase env (cell row (statusIdx cfg)) = toLowerCase env (condition cfg)"

definition applicant_keys :: "cfg \<Rightarrow> jsstring list list \<Rightarrow> jsstring list" where
  "applicant_keys cfg rows = map (\<lambda>r. cell r (pkIdx cfg)) (filter (valid cfg) rows)"

definition attendee_keys :: "builtins \<Rightarrow> cfg \<Rightarrow> jsstring list list \<Rightarrow> jsstring list" where
  "attendee_keys env cfg rows = map (\<lambda>r. cell r (pkIdx cfg)) (filter (attends env cfg) rows)"

text \<open>The two sets of an event, given the data rows of its file.\<close>

definition uniqueApplicants :: "cfg \<Rightarrow> jsstring list list \<Rightarrow> jsstring set" where
  "uniqueApplicants cfg rows = set (applicant_keys cfg rows)"

definition uniqueAttendees :: "builtins \<Rightarrow> cfg \<Rightarrow> jsstring list list \<Rightarrow> jsstring set" where
  "uniqueAttendees env cfg rows = set (attendee_keys env cfg rows)"

text \<open>
  The events of a run: the data rows of every file that is neither skipped as a
  duplicate nor fails to parse, in processing order.
\<close>

definition events_of :: "cfg \<Rightarrow> source_file list \<Rightarrow> jsstring list list list" where
  "events_of cfg files = List.map_filter (\<lambda>f. parseCSV f (headerRow cfg)) files"

definition events :: "cfg \<Rightarrow> source_file list \<Rightarrow> jsstring list list list" where
  "events cfg files = events_of cfg (toProcess files)"

text \<open>The name on the first valid row with a given key, in a sequence of rows.\<close>

definition first_name :: "cfg \<Rightarrow> jsstring list list \<Rightarrow> jsstring \<Rightarrow> jsstring option" where
  "first_name cfg rows k =
     map_option (\<lambda>r. cell r (nameIdx cfg)) (find (\<lambda>r. valid cfg r \<and> cell r (pkIdx cfg) = k) rows)"



text \<open>Reading the ledger: in the run's map, and in the rows of the result.\<close>

definition count_of :: "(jsstring \<times> (jsstring \<times> nat)) list \<Rightarrow> jsstring \<Rightarrow> nat" where
  "count_of m k = (case map_of m k of None \<Rightarrow> 0 | Some (nm, c) \<Rightarrow> c)"

definition name_of :: "(jsstring \<times> (jsstring \<times> nat)) list \<Rightarrow> jsstring \<Rightarrow> jsstring option" where
  "name_of m k = map_option fst (map_of m k)"

definition count_sum :: "(jsstring \<times> (jsstring \<times> nat)) list \<Rightarrow> nat" where
  "count_sum m = sum_list (map (\<lambda>e. snd (snd e)) m)"

definition recorded_name :: "agg_result \<Rightarrow> jsstring \<Rightarrow> jsstring option" where
  "recorded_name r k = map_of (map (\<lambda>(pk, nm, c). (pk, nm)) (masterRows r)) k"

definition attendanceCount :: "agg_result \<Rightarrow> jsstring \<Rightarrow> nat option" where
  "attendanceCount r k = map_of (map (\<lambda>(pk, nm, c). (pk, c)) (masterRows r)) k"

section \<open>Closed forms of the loops\<close>

text \<open>
  What the loops compute, written without the loops' error branch. The lemmas
  \<open>row_loop\<close>, \<open>count_attendees_ok\<close> and \<open>process_file_effect\<close> prove that the code
  computes exactly this, and in particular that the TypeError never occurs.
\<close>

definition add_all :: "'a list \<Rightarrow> 'a list \<Rightarrow> 'a list" where
  "add_all xs ks = foldl (\<lambda>a k. Set_add k a) xs ks"

definition first_seen ::
  "(jsstring \<times> (jsstring \<times> nat)) list \<Rightarrow> jsstring \<times> jsstring \<Rightarrow> (jsstring \<times> (jsstring \<times> nat)) list" where
  "first_seen m kn = (if map_of m (fst kn) = None then AList.update (fst kn) (snd kn, 0) m else m)"

definition valid_pairs :: "cfg \<Rightarrow> jsstring list list \<Rightarrow> (jsstring \<times> jsstring) list" where
  "valid_pairs cfg rows =
     map (\<lambda>r. (cell r (pkIdx cfg), cell r (nameIdx cfg))) (filter (valid cfg) rows)"

definition bump ::
  "(jsstring \<times> (jsstring \<times> nat)) list \<Rightarrow> jsstring \<Rightarrow> (jsstring \<times> (jsstring \<times> nat)) list" where
  "bump m k = (case map_of m k of None \<Rightarrow> m | Some (nm, c) \<Rightarrow> AList.update k (nm, c + 1) m)"

definition file_effect :: "builtins \<Rightarrow> cfg \<Rightarrow> run_state \<Rightarrow> source_file \<Rightarrow> run_state" where
  "file_effect env cfg s file =
     (case parseCSV file (headerRow cfg) of
        None \<Rightarrow> s\<lparr>skipped := skipped s @ [(name file, parse_error)]\<rparr>
      | Some rows \<Rightarrow>
          s\<lparr>master := foldl bump (foldl first_seen (master s) (valid_pairs cfg rows))
                        (add_all [] (attendee_keys env cfg rows)),
            grossTotal := grossTotal s + length (add_all [] (applicant_keys cfg rows)),
            attendTotal := attendTotal s + length (add_all [] (attendee_keys env cfg rows)),
            attendUniq := add_all (attendUniq s) (add_all [] (attendee_keys env cfg rows)),
            ignoredNoKey := ignoredNoKey s + length (filter (\<lambda>r. cell r (pkIdx cfg) = []) rows),
            ignoredNoName := ignoredNoName s
              + length (filter (\<lambda>r. cell r (pkIdx cfg) \<noteq> [] \<and> cell r (nameIdx cfg) = []) rows),
            processed := processed s + 1\<rparr>)"

definition final_state :: "builtins \<Rightarrow> source_file list \<Rightarrow> cfg \<Rightarrow> run_state" where
  "final_state env files cfg = foldl (file_effect env cfg) (init_state files) (toProcess files)"

text \<open>What \<open>nameCnt\<close> holds for a name once the names of all files are counted.\<close>

definition name_entry :: "jsstring list \<Rightarrow> jsstring \<Rightarrow> jsval option" where
  "name_entry names n =
     (if n \<in> set names \<and> n \<noteq> str ''__proto__''
      then Some (if n \<in> set object_prototype_keys then Text else Number (count_list names n))
      else None)"

section \<open>A concrete run\<close>

text \<open>
  Three files: two events and a file that fails to parse. The key \<open>K1\<close> attends both
  events under three spellings of its name, \<open>K3\<close> applies to both and attends the
  second; one row has no name and one has no key. A fourth file carries a name that
  \<open>Object.prototype\<close> defines.
\<close>

definition ex_cfg :: cfg where
  "ex_cfg = run_cfg 0 1 2 (str '' approved '') 1"

definition ex_a :: source_file where
  "ex_a = \<lparr>name = str ''a.csv'', parsed = Some
     [[str ''id'', str ''name'', str ''status''],
      [str ''K1'', str ''Alice'', str ''Approved''],
      [str ''K1 '', str ''Alicia'', str '' approved''],
      [str ''K2'', str '' '', str ''approved''],
      [str '''', str ''Bob'', str ''approved''],
      [str ''K3'', str ''Carl'']]\<rparr>"

definition ex_b :: source_file where
  "ex_b = \<lparr>name = str ''b.csv'', parsed = Some
     [[str ''id'', str ''name'', str ''status''],
      [str ''K3'', str ''Carlo'', str ''APPROVED''],
      [str ''K1'', str ''Al'', str ''approved'']]\<rparr>"

definition ex_c :: source_file where
  "ex_c = \<lparr>name = str ''c.csv'', parsed = None\<rparr>"

definition ex_d :: source_file where
  "ex_d = \<lparr>name = str ''constructor'', parsed = Some
     [[str ''id'', str ''name'', str ''status''],
      [str ''K9'', str ''Dan'', str ''approved'']]\<rparr>"

section \<open>Host data structures\<close>


lemma set_add_all: "set (add_all xs ks) = set xs \<union> set ks"
  unfolding add_all_def by (induction ks arbitrary: xs) (auto simp: Set_add_def)

lemma distinct_add_all: "distinct xs \<Longrightarrow> distinct (add_all xs ks)"
  unfolding add_all_def by (induction ks arbitrary: xs) (auto simp: Set_add_def)

lemma length_add_all_Nil: "length (add_all [] ks) = card (set ks)"
proof -
  have "distinct (add_all [] ks)" by (simp add: distinct_add_all)
  then have "length (add_all [] ks) = card (set (add_all [] ks))" by (simp add: distinct_card)
  then show ?thesis by (simp add: set_add_all)
qed

lemma keys_update: "fst ` set (AList.update k v m) = insert k (fst ` set m)"
proof -
  have "set (map fst (AList.update k v m)) = insert k (set (map fst m))"
    by (auto simp: update_keys)
  then show ?thesis by simp
qed


lemma dropWhile_prefix_fixed:
  assumes "dropWhile P t = t"
  shows "dropWhile P (rev (dropWhile P (rev t))) = rev (dropWhile P (rev t))"
proof (cases "rev (dropWhile P (rev t))")
  case Nil
  show ?thesis unfolding Nil by simp
next
  case (Cons y ys)
  have "rev t = takeWhile P (rev t) @ dropWhile P (rev t)" by simp
  then have "t = rev (dropWhile P (rev t)) @ rev (takeWhile P (rev t))"
    by (metis rev_append rev_rev_ident)
  with Cons have t: "t = y # ys @ rev (takeWhile P (rev t))" by simp
  let ?r = "ys @ rev (takeWhile P (rev t))"
  have "\<not> P y"
  proof
    assume py: "P y"
    have fixed: "dropWhile P (y # ?r) = y # ?r" using assms t by metis
    have "length (dropWhile P ?r) \<le> length ?r" by (rule length_dropWhile_le)
    moreover have "dropWhile P (y # ?r) = dropWhile P ?r" using py by simp
    ultimately have "length (y # ?r) \<le> length ?r" using fixed by metis
    then show False by simp
  qed
  then show ?thesis unfolding Cons by simp
qed

lemma trim_idem: "trim (trim s) = trim s"
proof -
  let ?d = "dropWhile is_trim_space"
  have "?d (?d s) = ?d s" by simp
  from dropWhile_prefix_fixed [OF this]
  have "?d (rev (?d (rev (?d s)))) = rev (?d (rev (?d s)))" .
  then show ?thesis by (simp add: trim_def)
qed



subsection \<open>The stable sort\<close>

lemma mset_insert_by: "mset (insert_by cmp x ys) = add_mset x (mset ys)"
  by (induction ys) simp_all

lemma mset_sort_by: "mset (sort_by cmp xs) = mset xs"
  unfolding sort_by_def by (induction xs) (simp_all add: mset_insert_by)

lemma set_insert_by: "set (insert_by cmp x ys) = insert x (set ys)"
  by (induction ys) auto

lemma set_sort_by: "set (sort_by cmp xs) = set xs"
  unfolding sort_by_def by (induction xs) (simp_all add: set_insert_by)

lemma sorted_insert_by:
  assumes total: "\<And>a b. cmp a b \<le> 0 \<or> cmp b a \<le> 0"
    and trans: "\<And>a b c. cmp a b \<le> 0 \<Longrightarrow> cmp b c \<le> 0 \<Longrightarrow> cmp a c \<le> 0"
    and "sorted_wrt (\<lambda>a b. cmp a b \<le> 0) ys"
  shows "sorted_wrt (\<lambda>a b. cmp a b \<le> 0) (insert_by cmp x ys)"
  using assms(3)
proof (induction ys)
  case Nil
  show ?case by simp
next
  case (Cons y ys)
  show ?case
  proof (cases "cmp x y \<le> 0")
    case True
    have "cmp x z \<le> 0" if "z \<in> set ys" for z
    proof -
      from that Cons.prems have "cmp y z \<le> 0" by simp
      with True show ?thesis by (rule trans)
    qed
    with True Cons.prems show ?thesis by simp
  next
    case False
    with total [of x y] have "cmp y x \<le> 0" by simp
    with False Cons show ?thesis by (simp add: set_insert_by)
  qed
qed

lemma sorted_sort_by:
  assumes "\<And>a b. cmp a b \<le> 0 \<or> cmp b a \<le> 0"
    and "\<And>a b c. cmp a b \<le> 0 \<Longrightarrow> cmp b c \<le> 0 \<Longrightarrow> cmp a c \<le> 0"
  shows "sorted_wrt (\<lambda>a b. cmp a b \<le> 0) (sort_by cmp xs)"
  unfolding sort_by_def
  by (induction xs) (simp_all add: sorted_insert_by [OF assms])

lemma sum_list_mset_cong:
  assumes "mset xs = mset ys"
  shows "sum_list (map f xs) = sum_list (map (f :: 'a \<Rightarrow> nat) ys)"
proof -
  have "sum_list (map f xs) = sum_mset (image_mset f (mset xs))"
    by (simp flip: sum_mset_sum_list)
  also have "\<dots> = sum_mset (image_mset f (mset ys))" by (simp add: assms)
  also have "\<dots> = sum_list (map f ys)" by (simp flip: sum_mset_sum_list)
  finally show ?thesis .
qed

lemma length_filter_mset_cong:
  assumes "mset xs = mset ys"
  shows "length (filter P xs) = length (filter P ys)"
proof -
  have "mset (filter P xs) = mset (filter P ys)" using assms by simp
  then show ?thesis by (metis size_mset)
qed

lemma map_of_mset_cong:
  assumes "mset xs = mset ys" and "distinct (map fst xs)"
  shows "map_of xs = map_of ys"
proof -
  have "mset (map fst xs) = mset (map fst ys)" using assms(1) by (metis mset_map)
  with assms(2) have "distinct (map fst ys)" by (metis mset_eq_imp_distinct_iff)
  moreover have "set xs = set ys" using assms(1) by (metis set_mset_mset)
  ultimately show ?thesis using assms(2) by (simp add: map_of_inject_set)
qed

lemma card_Union_le: "card (\<Union> (f ` set xs)) \<le> sum_list (map (\<lambda>x. card (f x)) xs)"
proof (induction xs)
  case Nil
  show ?case by simp
next
  case (Cons x xs)
  have "card (f x \<union> \<Union> (f ` set xs)) \<le> card (f x) + card (\<Union> (f ` set xs))"
    by (rule card_Un_le)
  with Cons show ?case by simp
qed

subsection \<open>The comparison of code units is a total preorder\<close>

lemma unit_compare_total: "unit_compare a b \<le> 0 \<or> unit_compare b a \<le> 0"
  by (induction a b rule: unit_compare.induct) auto

lemma unit_compare_trans:
  "unit_compare a b \<le> 0 \<Longrightarrow> unit_compare b c \<le> 0 \<Longrightarrow> unit_compare a c \<le> 0"
proof (induction a b arbitrary: c rule: unit_compare.induct)
  case 1
  then show ?case by simp
next
  case (2 y ys)
  then show ?case by (cases c) simp_all
next
  case (3 x xs)
  then show ?case by simp
next
  case (4 x xs y ys)
  show ?case
  proof (cases c)
    case Nil
    with "4.prems" show ?thesis by simp
  next
    case (Cons z zs)
    show ?thesis
    proof (cases "x < y")
      case True
      with "4.prems" Cons show ?thesis by (auto split: if_splits)
    next
      case False
      with "4.prems" have xy: "x = y" and r: "unit_compare xs ys \<le> 0"
        by (auto split: if_splits)
      show ?thesis
      proof (cases "y < z")
        case True
        with xy Cons show ?thesis by simp
      next
        case nlt: False
        with "4.prems" Cons have yz: "y = z" and r2: "unit_compare ys zs \<le> 0"
          by (auto split: if_splits)
        from "4.IH" [of zs] False xy r r2 have "unit_compare xs zs \<le> 0" by simp
        with xy yz Cons show ?thesis by simp
      qed
    qed
  qed
qed

section \<open>The duplicate-file filter\<close>

lemma proto_in_keys: "str ''__proto__'' \<in> set object_prototype_keys"
  by (simp add: object_prototype_keys_def)

lemma count_name_entry:
  assumes "map_of obj = name_entry names"
  shows "map_of (count_name obj x) = name_entry (names @ [x])"
proof (rule ext)
  fix n
  show "map_of (count_name obj x) n = name_entry (names @ [x]) n"
  proof (cases "x = str ''__proto__''")
    case True
    then have "map_of obj x = None" using assms by (simp add: name_entry_def)
    then have "count_name obj x = obj" using True by (simp add: count_name_def obj_set_def)
    then show ?thesis using assms True by (auto simp: name_entry_def)
  next
    case False
    have upd: "map_of (count_name obj x) n =
        (if n = x then Some (or0_plus1 (obj_get obj x)) else map_of obj n)"
      using False by (simp add: count_name_def obj_set_def update_conv')
    show ?thesis
    proof (cases "n = x")
      case neq: False
      then show ?thesis using upd assms by (simp add: name_entry_def)
    next
      case True
      show ?thesis
      proof (cases "x \<in> set object_prototype_keys")
        case inh: True
        then have "or0_plus1 (obj_get obj x) = Text"
          using assms by (simp add: obj_get_def name_entry_def)
        then show ?thesis using upd True inh False by (simp add: name_entry_def)
      next
        case own: False
        then have "or0_plus1 (obj_get obj x) = Number (count_list names x + 1)"
          using assms False by (simp add: obj_get_def name_entry_def)
        then show ?thesis using upd True own False by (simp add: name_entry_def)
      qed
    qed
  qed
qed

lemma nameCnt_entry: "map_of (foldl count_name [] names) = name_entry names"
proof (induction names rule: rev_induct)
  case Nil
  show ?case by (rule ext) (simp add: name_entry_def)
next
  case (snoc x xs)
  then show ?case by (simp add: count_name_entry)
qed

lemma count_name_distinct: "distinct (map fst obj) \<Longrightarrow> distinct (map fst (count_name obj x))"
  by (simp add: count_name_def obj_set_def distinct_update)

lemma nameCnt_distinct: "distinct (map fst (foldl count_name [] names))"
proof (induction names rule: rev_induct)
  case Nil
  show ?case by simp
next
  case (snoc x xs)
  then show ?case by (simp add: count_name_distinct)
qed

lemma set_entries: "set (entries obj) = set obj"
  by (auto simp: entries_def)

lemma mset_entries: "mset (entries obj) = mset obj"
  by (simp add: entries_def)

lemma distinct_entries_keys: "distinct (map fst obj) \<Longrightarrow> distinct (map fst (entries obj))"
proof -
  assume d: "distinct (map fst obj)"
  have "mset (map fst (entries obj)) = mset (map fst obj)"
    by (simp add: mset_entries)
  then show ?thesis using d by (metis mset_eq_imp_distinct_iff)
qed

text \<open>
  A name is reported as a duplicate exactly when it occurs more than once and is not a
  name that \<open>Object.prototype\<close> defines; each such name is reported once.
\<close>

lemma distinct_dupNames: "distinct (dupNames files)"
proof -
  have "distinct (map fst (entries (foldl count_name [] (map name files))))"
    by (simp add: distinct_entries_keys nameCnt_distinct)
  then show ?thesis
    unfolding dupNames_def by (simp add: distinct_map_filter)
qed

lemma dupNames_iff:
  "n \<in> set (dupNames files) \<longleftrightarrow>
     n \<notin> set object_prototype_keys \<and> 1 < count_list (map name files) n"
proof -
  let ?obj = "foldl count_name [] (map name files)"
  have "n \<in> set (dupNames files) \<longleftrightarrow> (\<exists>c. (n, c) \<in> set ?obj \<and> gt1 c)"
    by (auto simp: dupNames_def set_entries image_iff)
  also have "\<dots> \<longleftrightarrow> (\<exists>c. map_of ?obj n = Some c \<and> gt1 c)"
    using nameCnt_distinct [of "map name files"] by (auto dest: map_of_SomeD)
  also have "\<dots> \<longleftrightarrow> (\<exists>c. name_entry (map name files) n = Some c \<and> gt1 c)"
    by (simp add: nameCnt_entry)
  also have "\<dots> \<longleftrightarrow> n \<notin> set object_prototype_keys \<and> 1 < count_list (map name files) n"
    using proto_in_keys by (auto simp: name_entry_def count_list_0_iff)
  finally show ?thesis .
qed

lemma dupNames_mset:
  assumes "mset files' = mset files"
  shows "set (dupNames files') = set (dupNames files)"
proof -
  have "mset (map name files') = mset (map name files)" using assms by simp
  then have "count_list (map name files') n = count_list (map name files) n" for n
    by (metis count_mset)
  then show ?thesis by (auto simp: dupNames_iff)
qed

lemma dupNames_without:
  assumes "name f \<notin> set (dupNames (pre @ f # post))"
  shows "set (dupNames (pre @ post)) = set (dupNames (pre @ f # post))"
proof (rule set_eqI)
  fix n
  show "n \<in> set (dupNames (pre @ post)) \<longleftrightarrow> n \<in> set (dupNames (pre @ f # post))"
  proof (cases "n = name f")
    case True
    with assms show ?thesis by (auto simp: dupNames_iff)
  next
    case False
    then show ?thesis by (simp add: dupNames_iff)
  qed
qed

text \<open>
  The filter reads nothing but the names. When no file carries a name that
  \<open>Object.prototype\<close> defines, it keeps exactly the files whose name occurs once, in
  their order, and reports exactly the names that occur more than once.
\<close>

lemma dupNames_names_only: "map name files' = map name files \<Longrightarrow> dupNames files' = dupNames files"
  by (simp add: dupNames_def)

lemma duplicate_filter_other_names:
  assumes "\<forall>f \<in> set files. name f \<notin> set object_prototype_keys"
  shows "toProcess files = filter (\<lambda>f. count_list (map name files) (name f) \<le> 1) files"
    and "set (dupNames files) = {n. 1 < count_list (map name files) n}"
proof -
  show "toProcess files = filter (\<lambda>f. count_list (map name files) (name f) \<le> 1) files"
    unfolding toProcess_def using assms by (intro filter_cong) (auto simp: dupNames_iff)
  show "set (dupNames files) = {n. 1 < count_list (map name files) n}"
  proof (rule set_eqI)
    fix n
    have "n \<in> set (map name files)" if "1 < count_list (map name files) n"
      using that by (metis count_list_0_iff not_less_zero)
    with assms have "n \<notin> set object_prototype_keys" if "1 < count_list (map name files) n"
      using that by auto
    then show "n \<in> set (dupNames files) \<longleftrightarrow> n \<in> {n. 1 < count_list (map name files) n}"
      by (auto simp: dupNames_iff)
  qed
qed

lemma toProcess_mset:
  assumes "mset files' = mset files"
  shows "mset (toProcess files') = mset (toProcess files)"
  by (simp add: toProcess_def dupNames_mset [OF assms] assms)

section \<open>The loops compute their closed forms\<close>

lemma process_row_step:
  "process_row env cfg (s, apps, atts) r =
     (if cell r (pkIdx cfg) = [] then (s\<lparr>ignoredNoKey := ignoredNoKey s + 1\<rparr>, apps, atts)
      else if cell r (nameIdx cfg) = [] then (s\<lparr>ignoredNoName := ignoredNoName s + 1\<rparr>, apps, atts)
      else (s\<lparr>master := first_seen (master s) (cell r (pkIdx cfg), cell r (nameIdx cfg))\<rparr>,
            Set_add (cell r (pkIdx cfg)) apps,
            if attends env cfg r then Set_add (cell r (pkIdx cfg)) atts else atts))"
  by (simp add: process_row_def Let_def first_seen_def attends_def valid_def)

lemma row_loop:
  "foldl (process_row env cfg) (s, apps, atts) rows =
     (s\<lparr>master := foldl first_seen (master s) (valid_pairs cfg rows),
        ignoredNoKey := ignoredNoKey s + length (filter (\<lambda>r. cell r (pkIdx cfg) = []) rows),
        ignoredNoName := ignoredNoName s
           + length (filter (\<lambda>r. cell r (pkIdx cfg) \<noteq> [] \<and> cell r (nameIdx cfg) = []) rows)\<rparr>,
      add_all apps (applicant_keys cfg rows),
      add_all atts (attendee_keys env cfg rows))"
proof (induction rows arbitrary: s apps atts)
  case Nil
  show ?case by (simp add: valid_pairs_def add_all_def applicant_keys_def attendee_keys_def)
next
  case (Cons r rows)
  have "foldl (process_row env cfg) (s, apps, atts) (r # rows) =
        foldl (process_row env cfg) (process_row env cfg (s, apps, atts) r) rows"
    by simp
  also have "\<dots> = (s\<lparr>master := foldl first_seen (master s) (valid_pairs cfg (r # rows)),
        ignoredNoKey := ignoredNoKey s + length (filter (\<lambda>r. cell r (pkIdx cfg) = []) (r # rows)),
        ignoredNoName := ignoredNoName s
           + length (filter (\<lambda>r. cell r (pkIdx cfg) \<noteq> [] \<and> cell r (nameIdx cfg) = []) (r # rows))\<rparr>,
      add_all apps (applicant_keys cfg (r # rows)),
      add_all atts (attendee_keys env cfg (r # rows)))"
    unfolding process_row_step
    by (simp add: Cons.IH valid_pairs_def add_all_def applicant_keys_def attendee_keys_def
        valid_def attends_def)
  finally show ?case .
qed

text \<open>
  The two sets that the row loop leaves for an event are the sets of the specification.
\<close>

lemma event_sets:
  assumes "foldl (process_row env cfg) (s, [], []) rows = (s', eventApplicants, eventAttendees)"
  shows "set eventApplicants = uniqueApplicants cfg rows"
    and "set eventAttendees = uniqueAttendees env cfg rows"
    and "distinct eventApplicants" and "distinct eventAttendees"
  using assms
  by (auto simp: row_loop set_add_all distinct_add_all uniqueApplicants_def uniqueAttendees_def)

lemma keys_first_seen: "fst ` set (first_seen m kn) = insert (fst kn) (fst ` set m)"
  by (auto simp: first_seen_def keys_update map_of_eq_None_iff)

lemma keys_first_seen_all: "fst ` set (foldl first_seen m kns) = fst ` set m \<union> fst ` set kns"
  by (induction kns arbitrary: m) (auto simp: keys_first_seen)

lemma count_attendees_ok:
  "set pks \<subseteq> fst ` set (master s) \<Longrightarrow>
   count_attendees s pks =
     Inr (s\<lparr>master := foldl bump (master s) pks, attendUniq := add_all (attendUniq s) pks\<rparr>)"
proof (induction pks arbitrary: s)
  case Nil
  show ?case by (simp add: add_all_def)
next
  case (Cons k ks)
  from Cons.prems obtain nm c where kc: "map_of (master s) k = Some (nm, c)"
    by (cases "map_of (master s) k") (auto simp: map_of_eq_None_iff)
  have "set ks \<subseteq> fst ` set (AList.update k (nm, c + 1) (master s))"
    using Cons.prems by (auto simp: keys_update)
  then show ?case
    using kc by (simp add: count_attendee_def Cons.IH bump_def add_all_def)
qed

lemma attendee_keys_subset: "set (attendee_keys env cfg rows) \<subseteq> set (applicant_keys cfg rows)"
  by (auto simp: attendee_keys_def applicant_keys_def attends_def)

lemma applicant_keys_pairs: "set (applicant_keys cfg rows) = fst ` set (valid_pairs cfg rows)"
  by (auto simp: applicant_keys_def valid_pairs_def image_iff)

lemma attendees_in_ledger:
  "set (add_all [] (attendee_keys env cfg rows))
     \<subseteq> fst ` set (foldl first_seen m (valid_pairs cfg rows))"
  using attendee_keys_subset [of env cfg rows]
  by (auto simp: set_add_all keys_first_seen_all applicant_keys_pairs)

lemma process_file_effect: "process_file env cfg s file = Inr (file_effect env cfg s file)"
proof (cases "parseCSV file (headerRow cfg)")
  case None
  then show ?thesis by (simp add: process_file_def file_effect_def)
next
  case (Some rows)
  then show ?thesis
    using attendees_in_ledger [of env cfg rows "master s"]
    by (simp add: process_file_def file_effect_def row_loop count_attendees_ok)
qed

lemma process_files_effect:
  "process_files env cfg s files = Inr (foldl (file_effect env cfg) s files)"
  by (induction files arbitrary: s) (simp_all add: process_file_effect)

text \<open>\<open>aggregate\<close> always returns a result: the result of the final state.\<close>

lemma aggregate_result: "aggregate env files cfg = Inr (result_of env (final_state env files cfg))"
  by (simp add: aggregate_def process_files_effect final_state_def)

lemma file_effect_None:
  "parseCSV f (headerRow cfg) = None \<Longrightarrow>
   file_effect env cfg s f = s\<lparr>skipped := skipped s @ [(name f, parse_error)]\<rparr>"
  by (simp add: file_effect_def)

lemma file_effect_Some:
  "parseCSV f (headerRow cfg) = Some rows \<Longrightarrow>
   file_effect env cfg s f =
     s\<lparr>master := foldl bump (foldl first_seen (master s) (valid_pairs cfg rows))
                        (add_all [] (attendee_keys env cfg rows)),
       grossTotal := grossTotal s + length (add_all [] (applicant_keys cfg rows)),
       attendTotal := attendTotal s + length (add_all [] (attendee_keys env cfg rows)),
       attendUniq := add_all (attendUniq s) (add_all [] (attendee_keys env cfg rows)),
       ignoredNoKey := ignoredNoKey s + length (filter (\<lambda>r. cell r (pkIdx cfg) = []) rows),
       ignoredNoName := ignoredNoName s
         + length (filter (\<lambda>r. cell r (pkIdx cfg) \<noteq> [] \<and> cell r (nameIdx cfg) = []) rows),
       processed := processed s + 1\<rparr>"
  by (simp add: file_effect_def)

lemma events_of_Nil: "events_of cfg [] = []"
  by (simp add: events_of_def map_filter_simps)

lemma events_of_Cons:
  "events_of cfg (f # fs) =
     (case parseCSV f (headerRow cfg) of None \<Rightarrow> events_of cfg fs | Some rows \<Rightarrow> rows # events_of cfg fs)"
  by (simp add: events_of_def map_filter_simps split: option.splits)

lemma events_of_mset:
  assumes "mset fs' = mset fs"
  shows "mset (events_of cfg fs') = mset (events_of cfg fs)"
  by (simp add: events_of_def map_filter_def assms)

lemma events_mset:
  "mset files' = mset files \<Longrightarrow> mset (events cfg files') = mset (events cfg files)"
  unfolding events_def by (rule events_of_mset) (rule toProcess_mset)

subsection \<open>Totals and counters of one file and of the run\<close>

lemma file_grossTotal:
  "grossTotal (file_effect env cfg s f) = grossTotal s +
     (case parseCSV f (headerRow cfg) of None \<Rightarrow> 0 | Some rows \<Rightarrow> card (uniqueApplicants cfg rows))"
  by (simp add: file_effect_def length_add_all_Nil uniqueApplicants_def split: option.splits)

lemma file_attendTotal:
  "attendTotal (file_effect env cfg s f) = attendTotal s +
     (case parseCSV f (headerRow cfg) of None \<Rightarrow> 0 | Some rows \<Rightarrow> card (uniqueAttendees env cfg rows))"
  by (simp add: file_effect_def length_add_all_Nil uniqueAttendees_def split: option.splits)

lemma file_attendUniq:
  "set (attendUniq (file_effect env cfg s f)) = set (attendUniq s) \<union>
     (case parseCSV f (headerRow cfg) of None \<Rightarrow> {} | Some rows \<Rightarrow> uniqueAttendees env cfg rows)"
  by (simp add: file_effect_def set_add_all uniqueAttendees_def split: option.splits)

lemma file_attendUniq_distinct:
  "distinct (attendUniq s) \<Longrightarrow> distinct (attendUniq (file_effect env cfg s f))"
  by (simp add: file_effect_def distinct_add_all split: option.splits)

lemma file_skipped:
  "skipped (file_effect env cfg s f) = skipped s @
     (case parseCSV f (headerRow cfg) of None \<Rightarrow> [(name f, parse_error)] | Some rows \<Rightarrow> [])"
  by (simp add: file_effect_def split: option.splits)

lemma grossTotal_fold:
  "grossTotal (foldl (file_effect env cfg) s fs) =
     grossTotal s + sum_list (map (\<lambda>rows. card (uniqueApplicants cfg rows)) (events_of cfg fs))"
  by (induction fs arbitrary: s)
     (simp_all add: events_of_Nil events_of_Cons file_grossTotal split: option.splits)

lemma attendTotal_fold:
  "attendTotal (foldl (file_effect env cfg) s fs) =
     attendTotal s + sum_list (map (\<lambda>rows. card (uniqueAttendees env cfg rows)) (events_of cfg fs))"
  by (induction fs arbitrary: s)
     (simp_all add: events_of_Nil events_of_Cons file_attendTotal split: option.splits)

lemma attendUniq_fold_set:
  "set (attendUniq (foldl (file_effect env cfg) s fs)) =
     set (attendUniq s) \<union> \<Union> (uniqueAttendees env cfg ` set (events_of cfg fs))"
  by (induction fs arbitrary: s)
     (auto simp: events_of_Nil events_of_Cons file_attendUniq split: option.splits)

lemma attendUniq_fold_distinct:
  "distinct (attendUniq s) \<Longrightarrow> distinct (attendUniq (foldl (file_effect env cfg) s fs))"
  by (induction fs arbitrary: s) (simp_all add: file_attendUniq_distinct)

lemma skipped_fold:
  "skipped (foldl (file_effect env cfg) s fs) =
     skipped s @ map (\<lambda>f. (name f, parse_error)) (filter (\<lambda>f. parseCSV f (headerRow cfg) = None) fs)"
  by (induction fs arbitrary: s) (simp_all add: file_skipped split: option.splits)

subsection \<open>The ledger: keys\<close>

lemma bump_keys: "map fst (bump m k) = map fst m"
  by (auto simp: bump_def update_keys split: option.splits dest: map_of_SomeD intro: rev_image_eqI)

lemma bump_key_set: "fst ` set (bump m k) = fst ` set m"
  using bump_keys [of m k] by (metis set_map)

lemma bump_all_keys: "map fst (foldl bump m ks) = map fst m"
  by (induction ks arbitrary: m) (simp_all add: bump_keys)

lemma bump_all_key_set: "fst ` set (foldl bump m ks) = fst ` set m"
  using bump_all_keys [of m ks] by (metis set_map)

lemma first_seen_distinct: "distinct (map fst m) \<Longrightarrow> distinct (map fst (first_seen m kn))"
  by (simp add: first_seen_def distinct_update)

lemma first_seen_all_distinct: "distinct (map fst m) \<Longrightarrow> distinct (map fst (foldl first_seen m kns))"
  by (induction kns arbitrary: m) (simp_all add: first_seen_distinct)

lemma file_master_distinct:
  "distinct (map fst (master s)) \<Longrightarrow> distinct (map fst (master (file_effect env cfg s f)))"
  by (simp add: file_effect_def bump_all_keys first_seen_all_distinct split: option.splits)

lemma master_fold_distinct:
  "distinct (map fst (master s)) \<Longrightarrow> distinct (map fst (master (foldl (file_effect env cfg) s fs)))"
  by (induction fs arbitrary: s) (simp_all add: file_master_distinct)

lemma file_master_keys:
  "fst ` set (master (file_effect env cfg s f)) = fst ` set (master s) \<union>
     (case parseCSV f (headerRow cfg) of None \<Rightarrow> {} | Some rows \<Rightarrow> uniqueApplicants cfg rows)"
  by (simp add: file_effect_def bump_all_key_set keys_first_seen_all uniqueApplicants_def
      applicant_keys_pairs split: option.splits)

lemma master_fold_keys:
  "fst ` set (master (foldl (file_effect env cfg) s fs)) =
     fst ` set (master s) \<union> \<Union> (uniqueApplicants cfg ` set (events_of cfg fs))"
  by (induction fs arbitrary: s)
     (auto simp: events_of_Nil events_of_Cons file_master_keys split: option.splits)

subsection \<open>The ledger: attendance counts\<close>

lemma count_of_first_seen: "count_of (first_seen m kn) k = count_of m k"
  by (auto simp: count_of_def first_seen_def update_conv' split: option.splits)

lemma count_of_first_seen_all: "count_of (foldl first_seen m kns) k = count_of m k"
  by (induction kns arbitrary: m) (simp_all add: count_of_first_seen)

lemma count_of_bump:
  "count_of (bump m j) k = count_of m k + (if k = j \<and> j \<in> fst ` set m then 1 else 0)"
proof (cases "map_of m j")
  case None
  then have "j \<notin> fst ` set m" by (simp add: map_of_eq_None_iff)
  with None show ?thesis by (simp add: bump_def)
next
  case (Some v)
  then have "j \<in> fst ` set m" by (metis map_of_eq_None_iff option.distinct(1))
  with Some show ?thesis
    by (cases v) (simp add: bump_def count_of_def update_conv')
qed

lemma count_of_bump_all:
  "distinct ks \<Longrightarrow> set ks \<subseteq> fst ` set m \<Longrightarrow>
   count_of (foldl bump m ks) k = count_of m k + (if k \<in> set ks then 1 else 0)"
proof (induction ks arbitrary: m)
  case Nil
  show ?case by simp
next
  case (Cons j ks)
  from Cons.prems have "set ks \<subseteq> fst ` set (bump m j)" by (simp add: bump_key_set)
  with Cons.prems Cons.IH [of "bump m j"] show ?case
    by (auto simp: count_of_bump)
qed

lemma count_of_file_effect:
  "count_of (master (file_effect env cfg s f)) k =
     count_of (master s) k +
     (case parseCSV f (headerRow cfg) of None \<Rightarrow> 0
      | Some rows \<Rightarrow> if k \<in> uniqueAttendees env cfg rows then 1 else 0)"
proof (cases "parseCSV f (headerRow cfg)")
  case None
  then show ?thesis by (simp add: file_effect_None)
next
  case (Some rows)
  let ?atts = "add_all [] (attendee_keys env cfg rows)"
  have "distinct ?atts" by (simp add: distinct_add_all)
  from count_of_bump_all [OF this attendees_in_ledger [of env cfg rows "master s"], where k = k]
  show ?thesis
    using Some by (simp add: file_effect_Some count_of_first_seen_all set_add_all uniqueAttendees_def)
qed

lemma count_of_fold:
  "count_of (master (foldl (file_effect env cfg) s fs)) k =
     count_of (master s) k + length (filter (\<lambda>rows. k \<in> uniqueAttendees env cfg rows) (events_of cfg fs))"
  by (induction fs arbitrary: s)
     (auto simp: events_of_Nil events_of_Cons count_of_file_effect split: option.splits)

subsection \<open>The ledger: the sum of the counts\<close>

lemma count_sum_update_new:
  "map_of m k = None \<Longrightarrow> count_sum (AList.update k (nm, c) m) = count_sum m + c"
  by (induction m) (auto simp: count_sum_def)

lemma count_sum_update_old:
  "map_of m k = Some (nm, c) \<Longrightarrow> count_sum (AList.update k (nm', Suc c) m) = Suc (count_sum m)"
  by (induction m) (auto simp: count_sum_def)

lemma count_sum_first_seen: "count_sum (first_seen m kn) = count_sum m"
  by (simp add: first_seen_def count_sum_update_new)

lemma count_sum_first_seen_all: "count_sum (foldl first_seen m kns) = count_sum m"
  by (induction kns arbitrary: m) (simp_all add: count_sum_first_seen)

lemma count_sum_bump: "j \<in> fst ` set m \<Longrightarrow> count_sum (bump m j) = count_sum m + 1"
proof -
  assume "j \<in> fst ` set m"
  then obtain nm c where "map_of m j = Some (nm, c)"
    by (cases "map_of m j") (auto simp: map_of_eq_None_iff)
  then show ?thesis by (simp add: bump_def count_sum_update_old)
qed

lemma count_sum_bump_all:
  "set ks \<subseteq> fst ` set m \<Longrightarrow> count_sum (foldl bump m ks) = count_sum m + length ks"
proof (induction ks arbitrary: m)
  case Nil
  show ?case by simp
next
  case (Cons j ks)
  from Cons.prems have "set ks \<subseteq> fst ` set (bump m j)" by (simp add: bump_key_set)
  with Cons.prems Cons.IH [of "bump m j"] show ?case
    by (simp add: count_sum_bump)
qed

lemma count_sum_file_effect:
  "count_sum (master (file_effect env cfg s f)) + attendTotal s =
     count_sum (master s) + attendTotal (file_effect env cfg s f)"
proof (cases "parseCSV f (headerRow cfg)")
  case None
  then show ?thesis by (simp add: file_effect_None)
next
  case (Some rows)
  from count_sum_bump_all [OF attendees_in_ledger [of env cfg rows "master s"]] show ?thesis
    using Some by (simp add: file_effect_Some count_sum_first_seen_all)
qed

lemma count_sum_fold:
  "count_sum (master s) = attendTotal s \<Longrightarrow>
   count_sum (master (foldl (file_effect env cfg) s fs)) = attendTotal (foldl (file_effect env cfg) s fs)"
proof (induction fs arbitrary: s)
  case Nil
  then show ?case by simp
next
  case (Cons f fs)
  from Cons.prems count_sum_file_effect [of env cfg s f]
  have "count_sum (master (file_effect env cfg s f)) = attendTotal (file_effect env cfg s f)"
    by simp
  from Cons.IH [OF this] show ?case by simp
qed

subsection \<open>The ledger: names\<close>

lemma name_of_bump: "name_of (bump m j) k = name_of m k"
  by (auto simp: name_of_def bump_def update_conv' split: option.splits)

lemma name_of_bump_all: "name_of (foldl bump m ks) k = name_of m k"
  by (induction ks arbitrary: m) (simp_all add: name_of_bump)

lemma name_of_first_seen:
  "name_of (first_seen m kn) k =
     (case name_of m k of Some nm \<Rightarrow> Some nm | None \<Rightarrow> if k = fst kn then Some (snd kn) else None)"
  by (auto simp: name_of_def first_seen_def update_conv' split: option.splits)

lemma name_of_first_seen_all:
  "name_of (foldl first_seen m kns) k =
     (case name_of m k of Some nm \<Rightarrow> Some nm | None \<Rightarrow> map_of kns k)"
  by (induction kns arbitrary: m) (auto simp: name_of_first_seen split: option.splits)

lemma map_of_valid_pairs: "map_of (valid_pairs cfg rows) k = first_name cfg rows k"
  by (induction rows) (auto simp: valid_pairs_def first_name_def)

lemma first_name_append:
  "first_name cfg (xs @ ys) k =
     (case first_name cfg xs k of Some nm \<Rightarrow> Some nm | None \<Rightarrow> first_name cfg ys k)"
  by (induction xs) (auto simp: first_name_def)

lemma name_of_file_effect:
  "name_of (master (file_effect env cfg s f)) k =
     (case name_of (master s) k of Some nm \<Rightarrow> Some nm
      | None \<Rightarrow> (case parseCSV f (headerRow cfg) of None \<Rightarrow> None | Some rows \<Rightarrow> first_name cfg rows k))"
  by (cases "parseCSV f (headerRow cfg)")
     (auto simp: file_effect_None file_effect_Some name_of_bump_all name_of_first_seen_all
        map_of_valid_pairs split: option.splits)

lemma name_of_fold:
  "name_of (master (foldl (file_effect env cfg) s fs)) k =
     (case name_of (master s) k of Some nm \<Rightarrow> Some nm
      | None \<Rightarrow> first_name cfg (concat (events_of cfg fs)) k)"
proof (induction fs arbitrary: s)
  case Nil
  show ?case by (simp add: events_of_Nil first_name_def split: option.splits)
next
  case (Cons f fs)
  show ?case
    by (cases "parseCSV f (headerRow cfg)")
       (auto simp: Cons.IH events_of_Cons name_of_file_effect first_name_append split: option.splits)
qed

lemma name_of_process_row:
  "name_of (master s) k = Some nm \<Longrightarrow>
   name_of (master (fst (process_row env cfg (s, apps, atts) row))) k = Some nm"
  by (simp add: process_row_step name_of_first_seen)

subsection \<open>A file that fails to parse changes only the list of skipped files\<close>

lemma file_effect_skipped_irrelevant:
  "(file_effect env cfg s f)\<lparr>skipped := []\<rparr> = (file_effect env cfg (s\<lparr>skipped := []\<rparr>) f)\<lparr>skipped := []\<rparr>"
  by (cases "parseCSV f (headerRow cfg)") (simp_all add: file_effect_None file_effect_Some)

lemma fold_skipped_irrelevant:
  "s\<lparr>skipped := []\<rparr> = t\<lparr>skipped := []\<rparr> \<Longrightarrow>
   (foldl (file_effect env cfg) s fs)\<lparr>skipped := []\<rparr> = (foldl (file_effect env cfg) t fs)\<lparr>skipped := []\<rparr>"
proof (induction fs arbitrary: s t)
  case Nil
  then show ?case by simp
next
  case (Cons f fs)
  have "(file_effect env cfg s f)\<lparr>skipped := []\<rparr> = (file_effect env cfg t f)\<lparr>skipped := []\<rparr>"
    using Cons.prems file_effect_skipped_irrelevant [of env cfg s f]
      file_effect_skipped_irrelevant [of env cfg t f] by simp
  from Cons.IH [OF this] show ?case by simp
qed

section \<open>The final state and the result\<close>

lemma row_cmp_le:
  "row_cmp env a b \<le> 0 \<longleftrightarrow>
     snd (snd b) < snd (snd a) \<or> (snd (snd a) = snd (snd b) \<and> localeCompare env (fst a) (fst b) \<le> 0)"
  by (auto simp: row_cmp_def Let_def)

lemma masterRows_mset: "mset (masterRows (result_of env s)) = mset (master s)"
  by (simp add: result_of_def mset_sort_by)

lemma masterRows_set: "set (masterRows (result_of env s)) = set (master s)"
  by (simp add: result_of_def set_sort_by)

lemma masterRows_distinct:
  "distinct (map fst (master s)) \<Longrightarrow> distinct (map fst (masterRows (result_of env s)))"
proof -
  assume d: "distinct (map fst (master s))"
  have "mset (map fst (masterRows (result_of env s))) = mset (map fst (master s))"
    by (simp add: masterRows_mset)
  then show ?thesis using d by (metis mset_eq_imp_distinct_iff)
qed

lemma masterRows_map_of:
  "distinct (map fst (master s)) \<Longrightarrow> map_of (masterRows (result_of env s)) = map_of (master s)"
proof -
  assume d: "distinct (map fst (master s))"
  have "map_of (master s) = map_of (masterRows (result_of env s))"
    by (rule map_of_mset_cong) (simp_all add: masterRows_mset d)
  then show ?thesis by simp
qed

lemma map_of_names: "map_of (map (\<lambda>(pk, nm, c). (pk, nm)) m) k = map_option fst (map_of m k)"
  by (induction m) auto

lemma map_of_counts: "map_of (map (\<lambda>(pk, nm, c). (pk, c)) m) k = map_option snd (map_of m k)"
  by (induction m) auto

lemma final_distinct: "distinct (map fst (master (final_state env files cfg)))"
  unfolding final_state_def by (rule master_fold_distinct) (simp add: init_state_def)

lemma final_member:
  "(k, nm, c) \<in> set (master (final_state env files cfg)) \<longleftrightarrow>
     map_of (master (final_state env files cfg)) k = Some (nm, c)"
  using final_distinct [of env files cfg] by (auto dest: map_of_SomeD)

lemma final_count:
  "count_of (master (final_state env files cfg)) k =
     length (filter (\<lambda>rows. k \<in> uniqueAttendees env cfg rows) (events cfg files))"
proof -
  have "count_of (master (init_state files)) k = 0"
    by (simp add: init_state_def count_of_def)
  then show ?thesis
    unfolding final_state_def events_def count_of_fold by simp
qed

lemma final_keys:
  "fst ` set (master (final_state env files cfg)) = \<Union> (uniqueApplicants cfg ` set (events cfg files))"
  by (simp add: final_state_def master_fold_keys events_def init_state_def)

lemma final_name:
  "name_of (master (final_state env files cfg)) k = first_name cfg (concat (events cfg files)) k"
proof -
  have "name_of (master (init_state files)) k = None"
    by (simp add: init_state_def name_of_def)
  then show ?thesis
    unfolding final_state_def events_def name_of_fold by simp
qed

lemma final_grossTotal:
  "grossTotal (final_state env files cfg) =
     sum_list (map (\<lambda>rows. card (uniqueApplicants cfg rows)) (events cfg files))"
  by (simp add: final_state_def grossTotal_fold events_def init_state_def)

lemma final_attendTotal:
  "attendTotal (final_state env files cfg) =
     sum_list (map (\<lambda>rows. card (uniqueAttendees env cfg rows)) (events cfg files))"
  by (simp add: final_state_def attendTotal_fold events_def init_state_def)

lemma final_attendUnique:
  "length (attendUniq (final_state env files cfg)) =
     card (\<Union> (uniqueAttendees env cfg ` set (events cfg files)))"
proof -
  let ?s = "final_state env files cfg"
  have "distinct (attendUniq ?s)"
    unfolding final_state_def by (rule attendUniq_fold_distinct) (simp add: init_state_def)
  then have "length (attendUniq ?s) = card (set (attendUniq ?s))"
    by (simp add: distinct_card)
  also have "set (attendUniq ?s) = \<Union> (uniqueAttendees env cfg ` set (events cfg files))"
    by (simp add: final_state_def attendUniq_fold_set events_def init_state_def)
  finally show ?thesis .
qed

lemma recorded_name_final:
  "recorded_name (result_of env (final_state env files cfg)) k =
     name_of (master (final_state env files cfg)) k"
  by (simp add: recorded_name_def map_of_names masterRows_map_of final_distinct name_of_def)

lemma attendanceCount_final:
  "attendanceCount (result_of env (final_state env files cfg)) k =
     (if k \<in> \<Union> (uniqueApplicants cfg ` set (events cfg files))
      then Some (length (filter (\<lambda>rows. k \<in> uniqueAttendees env cfg rows) (events cfg files)))
      else None)"
proof -
  let ?s = "final_state env files cfg"
  have eq: "attendanceCount (result_of env ?s) k = map_option snd (map_of (master ?s) k)"
    by (simp add: attendanceCount_def map_of_counts masterRows_map_of final_distinct)
  show ?thesis
  proof (cases "map_of (master ?s) k")
    case None
    then have "k \<notin> fst ` set (master ?s)" by (simp add: map_of_eq_None_iff)
    then have "k \<notin> \<Union> (uniqueApplicants cfg ` set (events cfg files))"
      by (simp only: final_keys not_False_eq_True)
    with None eq show ?thesis by simp
  next
    case (Some v)
    then have "k \<in> fst ` set (master ?s)" by (metis map_of_eq_None_iff option.distinct(1))
    then have k: "k \<in> \<Union> (uniqueApplicants cfg ` set (events cfg files))"
      by (simp only: final_keys)
    have "count_of (master ?s) k = snd v" using Some by (cases v) (simp add: count_of_def)
    then have "snd v = length (filter (\<lambda>rows. k \<in> uniqueAttendees env cfg rows) (events cfg files))"
      by (simp add: final_count)
    with Some eq k show ?thesis by simp
  qed
qed

lemma attendees_subset: "uniqueAttendees env cfg rows \<subseteq> uniqueApplicants cfg rows"
  by (simp add: uniqueAttendees_def uniqueApplicants_def attendee_keys_subset)

lemma attendees_card_le: "card (uniqueAttendees env cfg rows) \<le> card (uniqueApplicants cfg rows)"
  by (rule card_mono) (simp_all add: attendees_subset, simp add: uniqueApplicants_def)

text \<open>
  The rate is the number \<open>0\<close> exactly when no application was counted; otherwise it
  is the formatted quotient of the two totals.
\<close>

lemma rate_branches:
  "rate (summary (result_of env s)) =
     (if grossTotal s = 0 then Zero else Quotient_toFixed6 (attendTotal s) (grossTotal s))"
  by (simp add: result_of_def)

section \<open>The claims\<close>



text \<open>
  Claim C2. In every run, the attendance count of each key of the final ledger is the
  number of processed events whose set of unique attendees holds the key (so an event
  adds at most one, however many of its rows carry the key), and the attendance counts
  of all ledger records add up to the final \<open>attendTotal\<close>.
\<close>

theorem attendance_count:
  "\<exists>r. aggregate env files cfg = Inr r \<and>
     (\<forall>k nm c. (k, nm, c) \<in> set (masterRows r) \<longrightarrow>
        c = length (filter (\<lambda>rows. k \<in> uniqueAttendees env cfg rows) (events cfg files))) \<and>
     sum_list (map (\<lambda>row. snd (snd row)) (masterRows r)) = sum_attendTotal (summary r)"
proof -
  let ?s = "final_state env files cfg"
  let ?r = "result_of env ?s"
  have counts: "c = length (filter (\<lambda>rows. k \<in> uniqueAttendees env cfg rows) (events cfg files))"
    if "(k, nm, c) \<in> set (masterRows ?r)" for k nm c
  proof -
    from that have "map_of (master ?s) k = Some (nm, c)"
      by (simp add: masterRows_set final_member)
    then have "count_of (master ?s) k = c" by (simp add: count_of_def)
    then show ?thesis by (simp add: final_count)
  qed
  have "sum_list (map (\<lambda>row. snd (snd row)) (masterRows ?r)) = count_sum (master ?s)"
    unfolding count_sum_def by (rule sum_list_mset_cong) (rule masterRows_mset)
  also have "\<dots> = attendTotal ?s"
    unfolding final_state_def by (rule count_sum_fold) (simp add: init_state_def count_sum_def)
  finally have "sum_list (map (\<lambda>row. snd (snd row)) (masterRows ?r)) = sum_attendTotal (summary ?r)"
    by (simp add: result_of_def)
  with counts have "aggregate env files cfg = Inr ?r \<and>
     (\<forall>k nm c. (k, nm, c) \<in> set (masterRows ?r) \<longrightarrow>
        c = length (filter (\<lambda>rows. k \<in> uniqueAttendees env cfg rows) (events cfg files))) \<and>
     sum_list (map (\<lambda>row. snd (snd row)) (masterRows ?r)) = sum_attendTotal (summary ?r)"
    by (simp add: aggregate_result)
  then show ?thesis ..
qed

theorem attendance_count_witness:
  "\<exists>r. aggregate ascii_env [ex_a, ex_c, ex_b] ex_cfg = Inr r \<and>
     (str ''K1'', str ''Alice'', 2) \<in> set (masterRows r) \<and>
     (2::nat) = length (filter (\<lambda>rows. str ''K1'' \<in> uniqueAttendees ascii_env ex_cfg rows)
                  (events ex_cfg [ex_a, ex_c, ex_b])) \<and>
     sum_list (map (\<lambda>row. snd (snd row)) (masterRows r)) = sum_attendTotal (summary r)"
proof -
  have mem: "case aggregate ascii_env [ex_a, ex_c, ex_b] ex_cfg of
      Inl e \<Rightarrow> False | Inr r \<Rightarrow> (str ''K1'', str ''Alice'', 2) \<in> set (masterRows r)"
    by code_simp
  from attendance_count [of ascii_env "[ex_a, ex_c, ex_b]" ex_cfg] obtain r where
    r: "aggregate ascii_env [ex_a, ex_c, ex_b] ex_cfg = Inr r"
    and c: "\<forall>k nm c. (k, nm, c) \<in> set (masterRows r) \<longrightarrow>
        c = length (filter (\<lambda>rows. k \<in> uniqueAttendees ascii_env ex_cfg rows)
              (events ex_cfg [ex_a, ex_c, ex_b]))"
    and s: "sum_list (map (\<lambda>row. snd (snd row)) (masterRows r)) = sum_attendTotal (summary r)"
    by blast
  from mem r have m: "(str ''K1'', str ''Alice'', 2) \<in> set (masterRows r)" by simp
  with c have "(2::nat) = length (filter (\<lambda>rows. str ''K1'' \<in> uniqueAttendees ascii_env ex_cfg rows)
                  (events ex_cfg [ex_a, ex_c, ex_b]))" by blast
  with r m s show ?thesis by blast
qed

text \<open>
  Claim C3. The duplicate-file filter should skip every file whose name occurs more
  than once. The code counts the names in a plain object, so a name that
  \<open>Object.prototype\<close> defines (\<open>constructor\<close>, \<open>toString\<close>, \<open>__proto__\<close>, ...) never
  gets a numeric count: two files with such a name are both kept and processed, and
  no \<open>duplicate_filename\<close> entry is reported. For all other names the filter does
  what the claim says (lemmas \<open>dupNames_iff\<close> and \<open>distinct_dupNames\<close>; the order of
  the kept files is the order of the input by the definition of \<open>toProcess\<close>).
\<close>

theorem inherited_name_not_detected:
  "dupNames [ex_d, ex_d] = [] \<and> toProcess [ex_d, ex_d] = [ex_d, ex_d] \<and>
   (case aggregate ascii_env [ex_d, ex_d] ex_cfg of
      Inl e \<Rightarrow> False
    | Inr r \<Rightarrow> processedCount r = 2 \<and> res_skipped r = [] \<and>
        masterRows r = [(str ''K9'', str ''Dan'', 2)] \<and> sum_grossTotal (summary r) = 2)"
  by code_simp

text \<open>
  Claim C4. Running the aggregation on a permutation of the file list gives the same
  \<open>grossTotal\<close>, \<open>attendTotal\<close> and \<open>attendUnique\<close>, and the same attendance count
  for every key (a key is in one ledger exactly when it is in the other). The recorded
  names are not compared.
\<close>

theorem order_independent:
  assumes "mset files' = mset files"
  shows "\<exists>r r'. aggregate env files cfg = Inr r \<and> aggregate env files' cfg = Inr r' \<and>
     sum_grossTotal (summary r') = sum_grossTotal (summary r) \<and>
     sum_attendTotal (summary r') = sum_attendTotal (summary r) \<and>
     attendUnique (summary r') = attendUnique (summary r) \<and>
     (\<forall>k. attendanceCount r' k = attendanceCount r k)"
proof -
  let ?r = "result_of env (final_state env files cfg)"
  let ?r' = "result_of env (final_state env files' cfg)"
  have ev: "mset (events cfg files') = mset (events cfg files)"
    using assms by (rule events_mset)
  then have evs: "set (events cfg files') = set (events cfg files)"
    by (metis set_mset_mset)
  have g: "sum_grossTotal (summary ?r') = sum_grossTotal (summary ?r)"
    by (simp add: result_of_def final_grossTotal sum_list_mset_cong [OF ev])
  have a: "sum_attendTotal (summary ?r') = sum_attendTotal (summary ?r)"
    by (simp add: result_of_def final_attendTotal sum_list_mset_cong [OF ev])
  have u: "attendUnique (summary ?r') = attendUnique (summary ?r)"
    by (simp add: result_of_def final_attendUnique evs)
  have c: "attendanceCount ?r' k = attendanceCount ?r k" for k
    by (simp add: attendanceCount_final evs length_filter_mset_cong [OF ev])
  have "aggregate env files cfg = Inr ?r \<and> aggregate env files' cfg = Inr ?r' \<and>
     sum_grossTotal (summary ?r') = sum_grossTotal (summary ?r) \<and>
     sum_attendTotal (summary ?r') = sum_attendTotal (summary ?r) \<and>
     attendUnique (summary ?r') = attendUnique (summary ?r) \<and>
     (\<forall>k. attendanceCount ?r' k = attendanceCount ?r k)"
    using g a u c by (simp add: aggregate_result)
  then show ?thesis by blast
qed

theorem order_independent_witness:
  "mset [ex_b, ex_c, ex_a] = mset [ex_a, ex_c, ex_b] \<and>
   (\<exists>r r'. aggregate ascii_env [ex_a, ex_c, ex_b] ex_cfg = Inr r \<and>
      aggregate ascii_env [ex_b, ex_c, ex_a] ex_cfg = Inr r' \<and>
      sum_grossTotal (summary r') = sum_grossTotal (summary r) \<and>
      sum_attendTotal (summary r') = sum_attendTotal (summary r) \<and>
      attendUnique (summary r') = attendUnique (summary r) \<and>
      (\<forall>k. attendanceCount r' k = attendanceCount r k))"
proof -
  have h: "mset [ex_b, ex_c, ex_a] = mset [ex_a, ex_c, ex_b]" by (simp add: add_mset_commute)
  from order_independent [OF h, of ascii_env ex_cfg] h show ?thesis by simp
qed

text \<open>
  Claim C5. In every run, the name that the ledger holds for a key is the name on the
  first valid row with that key, among all data rows of the run in processing order;
  and a row never changes the name of a key that already has one, whatever name the row
  carries.
\<close>

theorem first_name_kept:
  "(\<exists>r. aggregate env files cfg = Inr r \<and>
      (\<forall>k. recorded_name r k = first_name cfg (concat (events cfg files)) k)) \<and>
   (\<forall>s apps atts row k nm. name_of (master s) k = Some nm \<longrightarrow>
      name_of (master (fst (process_row env cfg (s, apps, atts) row))) k = Some nm)"
proof -
  let ?r = "result_of env (final_state env files cfg)"
  have "aggregate env files cfg = Inr ?r \<and>
      (\<forall>k. recorded_name ?r k = first_name cfg (concat (events cfg files)) k)"
    by (simp add: aggregate_result recorded_name_final final_name)
  then have "\<exists>r. aggregate env files cfg = Inr r \<and>
      (\<forall>k. recorded_name r k = first_name cfg (concat (events cfg files)) k)" ..
  then show ?thesis by (simp add: name_of_process_row)
qed

theorem first_name_kept_witness:
  "\<exists>r. aggregate ascii_env [ex_a, ex_c, ex_b] ex_cfg = Inr r \<and>
     recorded_name r (str ''K1'') = Some (str ''Alice'') \<and>
     recorded_name r (str ''K3'') = Some (str ''Carl'')"
proof -
  have f: "first_name ex_cfg (concat (events ex_cfg [ex_a, ex_c, ex_b])) (str ''K1'') = Some (str ''Alice'')
      \<and> first_name ex_cfg (concat (events ex_cfg [ex_a, ex_c, ex_b])) (str ''K3'') = Some (str ''Carl'')"
    by code_simp
  from first_name_kept [of ascii_env "[ex_a, ex_c, ex_b]" ex_cfg] f show ?thesis by auto
qed

text \<open>
  Claim C6 is about the value of \<open>(attendTotal / grossTotal).toFixed(6)\<close>, a division
  of doubles and its decimal rounding; it is not stated here. Lemma \<open>rate_branches\<close>
  above gives the part that does not depend on floating-point arithmetic: the rate is the
  number \<open>0\<close> exactly when \<open>grossTotal\<close> is \<open>0\<close>.
\<close>

text \<open>
  Claim C7. In every run the rows of \<open>masterRows\<close> are sorted by attendance count,
  non-increasing, rows with equal counts by key, non-decreasing under the host's locale
  comparison, and no key is on two rows. The locale comparison is the host's; the
  theorem asks of it what every collation gives: that it is total and transitive.
\<close>

theorem masterRows_sorted:
  assumes total: "\<And>a b. localeCompare env a b \<le> 0 \<or> localeCompare env b a \<le> 0"
    and trans: "\<And>a b c. localeCompare env a b \<le> 0 \<Longrightarrow> localeCompare env b c \<le> 0
                  \<Longrightarrow> localeCompare env a c \<le> 0"
  shows "\<exists>r. aggregate env files cfg = Inr r \<and>
     sorted_wrt (\<lambda>a b. snd (snd b) < snd (snd a)
        \<or> (snd (snd a) = snd (snd b) \<and> localeCompare env (fst a) (fst b) \<le> 0)) (masterRows r) \<and>
     distinct (map fst (masterRows r))"
proof -
  let ?s = "final_state env files cfg"
  have t1: "row_cmp env a b \<le> 0 \<or> row_cmp env b a \<le> 0" for a b
    using total [of "fst a" "fst b"] by (auto simp: row_cmp_le)
  have t2: "row_cmp env a c \<le> 0" if "row_cmp env a b \<le> 0" "row_cmp env b c \<le> 0" for a b c
    using that trans [of "fst a" "fst b" "fst c"] by (auto simp: row_cmp_le)
  have "sorted_wrt (\<lambda>a b. row_cmp env a b \<le> 0) (masterRows (result_of env ?s))"
    unfolding result_of_def using t1 t2 by (simp add: sorted_sort_by)
  then have "sorted_wrt (\<lambda>a b. snd (snd b) < snd (snd a)
        \<or> (snd (snd a) = snd (snd b) \<and> localeCompare env (fst a) (fst b) \<le> 0))
      (masterRows (result_of env ?s))"
    by (simp add: row_cmp_le)
  moreover have "distinct (map fst (masterRows (result_of env ?s)))"
    by (simp add: masterRows_distinct final_distinct)
  ultimately have "aggregate env files cfg = Inr (result_of env ?s) \<and>
     sorted_wrt (\<lambda>a b. snd (snd b) < snd (snd a)
        \<or> (snd (snd a) = snd (snd b) \<and> localeCompare env (fst a) (fst b) \<le> 0))
       (masterRows (result_of env ?s)) \<and>
     distinct (map fst (masterRows (result_of env ?s)))"
    by (simp add: aggregate_result)
  then show ?thesis ..
qed

theorem masterRows_sorted_witness:
  "\<exists>r. aggregate ascii_env [ex_a, ex_c, ex_b] ex_cfg = Inr r \<and>
     sorted_wrt (\<lambda>a b. snd (snd b) < snd (snd a)
        \<or> (snd (snd a) = snd (snd b) \<and> localeCompare ascii_env (fst a) (fst b) \<le> 0)) (masterRows r) \<and>
     distinct (map fst (masterRows r))"
proof -
  have t: "localeCompare ascii_env a b \<le> 0 \<or> localeCompare ascii_env b a \<le> 0" for a b
    by (simp add: ascii_env_def unit_compare_total)
  have u: "localeCompare ascii_env a c \<le> 0"
    if "localeCompare ascii_env a b \<le> 0" "localeCompare ascii_env b c \<le> 0" for a b c
    using that unit_compare_trans [of a b c] by (simp add: ascii_env_def)
  from masterRows_sorted [of ascii_env "[ex_a, ex_c, ex_b]" ex_cfg, OF t u] show ?thesis .
qed

text \<open>
  Claim C8. When a file that the run tries to read fails to parse, the file is listed
  in \<open>skipped\<close> with the reason \<open>parse_error\<close>, and the run ends as it would without
  that file: the same summary (all totals and both ignored-row counters), the same
  ledger rows and the same \<open>processedCount\<close>; the only difference is the entry in
  \<open>skipped\<close>. The files after it are therefore processed as usual.
\<close>

theorem parse_failure_isolated:
  assumes fails: "parsed f = None"
    and attempted: "f \<in> set (toProcess (pre @ f # post))"
  shows "\<exists>r r'. aggregate env (pre @ f # post) cfg = Inr r \<and>
     aggregate env (pre @ post) cfg = Inr r' \<and>
     (name f, parse_error) \<in> set (res_skipped r) \<and>
     set (res_skipped r) = insert (name f, parse_error) (set (res_skipped r')) \<and>
     summary r = summary r' \<and> masterRows r = masterRows r' \<and>
     processedCount r = processedCount r'"
proof -
  let ?fs = "pre @ f # post" and ?gs = "pre @ post"
  let ?s = "final_state env ?fs cfg" and ?t = "final_state env ?gs cfg"
  let ?P = "\<lambda>g. name g \<notin> set (dupNames ?fs)"
  from attempted have "f \<in> {g \<in> set ?fs. name g \<notin> set (dupNames ?fs)}"
    by (simp only: toProcess_def set_filter)
  then have nd: "name f \<notin> set (dupNames ?fs)" by blast
  have dn: "set (dupNames ?gs) = set (dupNames ?fs)" using nd by (rule dupNames_without)
  have pf: "parseCSV f (headerRow cfg) = None" using fails by (simp add: parseCSV_def)
  have tp: "toProcess ?fs = filter ?P pre @ f # filter ?P post"
    using nd by (simp add: toProcess_def)
  have tq: "toProcess ?gs = filter ?P pre @ filter ?P post"
    by (simp add: toProcess_def dn)
  let ?u = "foldl (file_effect env cfg) (init_state ?fs) (filter ?P pre)"
  have s_eq: "?s = foldl (file_effect env cfg) (file_effect env cfg ?u f) (filter ?P post)"
    by (simp add: final_state_def tp)
  have t_eq: "?t = foldl (file_effect env cfg) (init_state ?gs) (filter ?P pre @ filter ?P post)"
    by (simp add: final_state_def tq)
  have "(file_effect env cfg ?u f)\<lparr>skipped := []\<rparr> = ?u\<lparr>skipped := []\<rparr>"
    by (simp add: file_effect_None [OF pf])
  then have "?s\<lparr>skipped := []\<rparr> = (foldl (file_effect env cfg) ?u (filter ?P post))\<lparr>skipped := []\<rparr>"
    unfolding s_eq by (rule fold_skipped_irrelevant)
  also have "\<dots> = (foldl (file_effect env cfg) (init_state ?fs) (filter ?P pre @ filter ?P post))\<lparr>skipped := []\<rparr>"
    by simp
  also have "\<dots> = ?t\<lparr>skipped := []\<rparr>"
    unfolding t_eq by (rule fold_skipped_irrelevant) (simp add: init_state_def)
  finally have same: "?s\<lparr>skipped := []\<rparr> = ?t\<lparr>skipped := []\<rparr>" .
  have res: "(result_of env ?s)\<lparr>res_skipped := []\<rparr> = (result_of env ?t)\<lparr>res_skipped := []\<rparr>"
  proof -
    have "(result_of env x)\<lparr>res_skipped := []\<rparr> = (result_of env (x\<lparr>skipped := []\<rparr>))\<lparr>res_skipped := []\<rparr>" for x
      by (simp add: result_of_def)
    then show ?thesis using same by metis
  qed
  have sk_s: "skipped ?s = skipped0 ?fs @ map (\<lambda>g. (name g, parse_error))
      (filter (\<lambda>g. parseCSV g (headerRow cfg) = None) (toProcess ?fs))"
    unfolding final_state_def skipped_fold by (simp add: init_state_def)
  have sk_t: "skipped ?t = skipped0 ?gs @ map (\<lambda>g. (name g, parse_error))
      (filter (\<lambda>g. parseCSV g (headerRow cfg) = None) (toProcess ?gs))"
    unfolding final_state_def skipped_fold by (simp add: init_state_def)
  have sk: "set (skipped ?s) = insert (name f, parse_error) (set (skipped ?t))"
    unfolding sk_s sk_t tp tq using pf by (auto simp: skipped0_def dn)
  have fields: "summary (result_of env ?s) = summary (result_of env ?t) \<and>
      masterRows (result_of env ?s) = masterRows (result_of env ?t) \<and>
      processedCount (result_of env ?s) = processedCount (result_of env ?t)"
  proof -
    have "summary (x\<lparr>res_skipped := []\<rparr>) = summary x
       \<and> masterRows (x\<lparr>res_skipped := []\<rparr>) = masterRows x
       \<and> processedCount (x\<lparr>res_skipped := []\<rparr>) = processedCount x" for x :: agg_result
      by simp
    then show ?thesis using res by metis
  qed
  have "aggregate env ?fs cfg = Inr (result_of env ?s) \<and>
     aggregate env ?gs cfg = Inr (result_of env ?t) \<and>
     (name f, parse_error) \<in> set (res_skipped (result_of env ?s)) \<and>
     set (res_skipped (result_of env ?s)) = insert (name f, parse_error) (set (res_skipped (result_of env ?t))) \<and>
     summary (result_of env ?s) = summary (result_of env ?t) \<and>
     masterRows (result_of env ?s) = masterRows (result_of env ?t) \<and>
     processedCount (result_of env ?s) = processedCount (result_of env ?t)"
    using fields sk by (simp add: aggregate_result) (simp add: result_of_def)
  then show ?thesis by blast
qed

theorem parse_failure_isolated_witness:
  "parsed ex_c = None \<and> ex_c \<in> set (toProcess ([ex_a] @ ex_c # [ex_b])) \<and>
   (\<exists>r r'. aggregate ascii_env ([ex_a] @ ex_c # [ex_b]) ex_cfg = Inr r \<and>
     aggregate ascii_env ([ex_a] @ [ex_b]) ex_cfg = Inr r' \<and>
     (name ex_c, parse_error) \<in> set (res_skipped r) \<and>
     set (res_skipped r) = insert (name ex_c, parse_error) (set (res_skipped r')) \<and>
     summary r = summary r' \<and> masterRows r = masterRows r' \<and>
     processedCount r = processedCount r')"
proof -
  have h1: "parsed ex_c = None" by (simp add: ex_c_def)
  have "name ex_c \<notin> set (dupNames ([ex_a] @ ex_c # [ex_b]))" by code_simp
  then have h2: "ex_c \<in> set (toProcess ([ex_a] @ ex_c # [ex_b]))" by (simp add: toProcess_def)
  from parse_failure_isolated [OF h1 h2, of ascii_env ex_cfg] h1 h2 show ?thesis by simp
qed

text \<open>
  Claim C9. In every run the final totals satisfy
  \<open>grossTotal \<ge> attendTotal \<ge> attendUnique \<ge> 0\<close>; the number of unique attendees is
  the size of the union of the events' attendee sets, and in every event the attendee
  set is a subset of the applicant set.
\<close>

theorem totals_ordered:
  "\<exists>r. aggregate env files cfg = Inr r \<and>
     sum_attendTotal (summary r) \<le> sum_grossTotal (summary r) \<and>
     attendUnique (summary r) \<le> sum_attendTotal (summary r) \<and>
     0 \<le> attendUnique (summary r) \<and>
     attendUnique (summary r) = card (\<Union> (uniqueAttendees env cfg ` set (events cfg files))) \<and>
     list_all (\<lambda>rows. uniqueAttendees env cfg rows \<subseteq> uniqueApplicants cfg rows) (events cfg files)"
proof -
  let ?s = "final_state env files cfg"
  let ?ev = "events cfg files"
  have u: "length (attendUniq ?s) = card (\<Union> (uniqueAttendees env cfg ` set ?ev))"
    by (rule final_attendUnique)
  have "attendTotal ?s \<le> grossTotal ?s"
    unfolding final_grossTotal final_attendTotal by (rule sum_list_mono) (rule attendees_card_le)
  moreover have "length (attendUniq ?s) \<le> attendTotal ?s"
    unfolding u final_attendTotal by (rule card_Union_le)
  ultimately have "aggregate env files cfg = Inr (result_of env ?s) \<and>
     sum_attendTotal (summary (result_of env ?s)) \<le> sum_grossTotal (summary (result_of env ?s)) \<and>
     attendUnique (summary (result_of env ?s)) \<le> sum_attendTotal (summary (result_of env ?s)) \<and>
     0 \<le> attendUnique (summary (result_of env ?s)) \<and>
     attendUnique (summary (result_of env ?s)) = card (\<Union> (uniqueAttendees env cfg ` set ?ev)) \<and>
     list_all (\<lambda>rows. uniqueAttendees env cfg rows \<subseteq> uniqueApplicants cfg rows) ?ev"
    using u by (simp add: aggregate_result result_of_def list_all_iff attendees_subset)
  then show ?thesis ..
qed

theorem totals_ordered_witness:
  "\<exists>r. aggregate ascii_env [ex_a, ex_c, ex_b] ex_cfg = Inr r \<and>
     sum_attendTotal (summary r) \<le> sum_grossTotal (summary r) \<and>
     attendUnique (summary r) \<le> sum_attendTotal (summary r) \<and>
     sum_grossTotal (summary r) = 4 \<and> sum_attendTotal (summary r) = 3 \<and> attendUnique (summary r) = 2"
proof -
  have v: "case aggregate ascii_env [ex_a, ex_c, ex_b] ex_cfg of
      Inl e \<Rightarrow> False
    | Inr r \<Rightarrow> sum_grossTotal (summary r) = 4 \<and> sum_attendTotal (summary r) = 3 \<and> attendUnique (summary r) = 2"
    by code_simp
  from totals_ordered [of ascii_env "[ex_a, ex_c, ex_b]" ex_cfg] obtain r where
    "aggregate ascii_env [ex_a, ex_c, ex_b] ex_cfg = Inr r"
    "sum_attendTotal (summary r) \<le> sum_grossTotal (summary r)"
    "attendUnique (summary r) \<le> sum_attendTotal (summary r)" by blast
  with v show ?thesis by auto
qed

text \<open>
  Claim C10. In every run, every key that stands on a valid row of a processed file has
  a row in \<open>masterRows\<close>; its attendance count is the number of events it attended,
  so a key that is in no event's attendee set is listed with the count 0 and not left
  out.
\<close>

theorem applicants_listed:
  "\<exists>r. aggregate env files cfg = Inr r \<and>
     (\<forall>rows row. rows \<in> set (events cfg files) \<and> row \<in> set rows \<and> valid cfg row \<longrightarrow>
        (\<exists>nm c. (cell row (pkIdx cfg), nm, c) \<in> set (masterRows r) \<and>
           c = length (filter (\<lambda>e. cell row (pkIdx cfg) \<in> uniqueAttendees env cfg e) (events cfg files)) \<and>
           ((\<forall>e \<in> set (events cfg files). cell row (pkIdx cfg) \<notin> uniqueAttendees env cfg e) \<longrightarrow> c = 0)))"
proof -
  let ?s = "final_state env files cfg"
  let ?r = "result_of env ?s"
  let ?ev = "events cfg files"
  have listed: "\<exists>nm c. (cell row (pkIdx cfg), nm, c) \<in> set (masterRows ?r) \<and>
           c = length (filter (\<lambda>e. cell row (pkIdx cfg) \<in> uniqueAttendees env cfg e) ?ev) \<and>
           ((\<forall>e \<in> set ?ev. cell row (pkIdx cfg) \<notin> uniqueAttendees env cfg e) \<longrightarrow> c = 0)"
    if "rows \<in> set ?ev" "row \<in> set rows" "valid cfg row" for rows row
  proof -
    let ?k = "cell row (pkIdx cfg)"
    from that have "?k \<in> uniqueApplicants cfg rows"
      by (auto simp: uniqueApplicants_def applicant_keys_def)
    with that(1) have "?k \<in> fst ` set (master ?s)"
      unfolding final_keys by blast
    then obtain nm c where in_m: "(?k, nm, c) \<in> set (master ?s)" by auto
    then have "map_of (master ?s) ?k = Some (nm, c)" by (simp add: final_member)
    then have "count_of (master ?s) ?k = c" by (simp add: count_of_def)
    then have c: "c = length (filter (\<lambda>e. ?k \<in> uniqueAttendees env cfg e) ?ev)"
      by (simp add: final_count)
    have "c = 0" if "\<forall>e \<in> set ?ev. ?k \<notin> uniqueAttendees env cfg e"
      using that c by (simp add: filter_empty_conv [THEN iffD2])
    with in_m c show ?thesis by (auto simp: masterRows_set)
  qed
  have "aggregate env files cfg = Inr ?r" by (rule aggregate_result)
  with listed show ?thesis by blast
qed

theorem applicants_listed_witness:
  "\<exists>r. aggregate ascii_env [ex_a] ex_cfg = Inr r \<and>
     (\<exists>nm. (str ''K3'', nm, 0) \<in> set (masterRows r))"
proof -
  let ?rows = "slice 1 (the (parsed ex_a))"
  let ?row = "[str ''K3'', str ''Carl'']"
  have h1: "?rows \<in> set (events ex_cfg [ex_a]) \<and> ?row \<in> set ?rows \<and> valid ex_cfg ?row"
    by code_simp
  have h2: "\<forall>e \<in> set (events ex_cfg [ex_a]). cell ?row (pkIdx ex_cfg) \<notin> uniqueAttendees ascii_env ex_cfg e"
    by code_simp
  have h3: "cell ?row (pkIdx ex_cfg) = str ''K3''" by code_simp
  from applicants_listed [of ascii_env "[ex_a]" ex_cfg] obtain r where
    r: "aggregate ascii_env [ex_a] ex_cfg = Inr r"
    and a: "\<forall>rows row. rows \<in> set (events ex_cfg [ex_a]) \<and> row \<in> set rows \<and> valid ex_cfg row \<longrightarrow>
        (\<exists>nm c. (cell row (pkIdx ex_cfg), nm, c) \<in> set (masterRows r) \<and>
           c = length (filter (\<lambda>e. cell row (pkIdx ex_cfg) \<in> uniqueAttendees ascii_env ex_cfg e) (events ex_cfg [ex_a])) \<and>
           ((\<forall>e \<in> set (events ex_cfg [ex_a]). cell row (pkIdx ex_cfg) \<notin> uniqueAttendees ascii_env ex_cfg e) \<longrightarrow> c = 0))"
    by blast
  from a h1 obtain nm c where "(cell ?row (pkIdx ex_cfg), nm, c) \<in> set (masterRows r)"
    and "(\<forall>e \<in> set (events ex_cfg [ex_a]). cell ?row (pkIdx ex_cfg) \<notin> uniqueAttendees ascii_env ex_cfg e) \<longrightarrow> c = 0"
    by blast
  with h2 h3 have "(str ''K3'', nm, 0) \<in> set (masterRows r)" by simp
  with r show ?thesis by blast
qed

end
